theory Spec2Isabelle
  imports Complex_Main "HOL-Library.AList" "HOL-Library.Multiset"
begin

section \<open>Data model of script.js\<close>

text \<open>
  The development follows the second, complete version of the script (the one with the
  result overlay, the \<open>teams\<close> array and the auto-reset timer). Its global variables become
  the fields of one record that every handler takes and returns. Canvas drawing
  (\<open>drawAim\<close>, \<open>drawTeamLines\<close>, \<open>drawLineBetween\<close>) only writes pixels and is left out;
  what the script writes to the two DOM elements it owns (the hint and the result overlay)
  is kept, because the overlay text is where the result is stored.

  JavaScript numbers that hold coordinates and angles are taken as real numbers; integer
  valued ones (touch identifiers, \<open>Date.now()\<close>, timer handles) as integers.
\<close>

datatype js_error = TypeError

text \<open>One entry of \<open>ev.changedTouches\<close>.\<close>

record touch =
  ident :: int
  clientX :: real
  clientY :: real

text \<open>
  The object stored per touch, \<open>{ x, y, color, angle, radius, active }\<close>. The fields
  \<open>x\<close> and \<open>y\<close> are called \<open>pos_x\<close> and \<open>pos_y\<close> here. A colour is \<open>None\<close> when the
  palette lookup gives \<open>undefined\<close>.
\<close>

record contact =
  pos_x :: real
  pos_y :: real
  color :: "string option"
  angle :: real
  radius :: real
  active :: bool

text \<open>A team member, the object \<open>{ id, color }\<close>.\<close>

record member =
  m_id :: int
  m_color :: "string option"

text \<open>
  \<open>touchesData\<close> is an object used as a dictionary. It is an association list in the order
  in which the properties were created: assigning to an existing property keeps its place,
  a deleted and re-created property goes to the end.
\<close>

type_synonym registry = "(int \<times> contact) list"

record session =
  touchesData :: registry
  lastTouchTime :: int
  showingResult :: bool
  locked :: bool
  resultTimer :: "nat option"
  teams :: "member list list"
  hintDisplay :: string
  overlayDisplay :: string
  overlayHTML :: string
  timers :: "(nat \<times> int) list"
  nextTimer :: nat

text \<open>
  The last two fields belong to the browser, not to the script: \<open>timers\<close> is the list of
  pending timeouts (handle and deadline) and \<open>nextTimer\<close> the next handle that
  \<open>setTimeout\<close> hands out. \<open>resultTimer\<close> is \<open>None\<close> for \<open>null\<close>.
\<close>

text \<open>
  \<open>Math.random()\<close> returns a number that is at least 0 and less than 1; the type of its
  results carries that contract.
\<close>

typedef unit_random = "{r :: real. 0 \<le> r \<and> r < 1}"
  by (rule exI [of _ 0]) simp

setup_lifting type_definition_unit_random

lift_definition random_half :: unit_random is "1 / 2 :: real"
  by simp

text \<open>
  What a frame or an event reads from outside the script: the clock, the checked radio
  button (\<open>getCurrentMode()\<close>), the number parsed from the count field
  (\<open>parseInt(countInput.value, 10)\<close>, \<open>None\<close> for \<open>NaN\<close>, which is what an emptied field
  parses to) and the successive results of \<open>Math.random()\<close>.
\<close>

record env =
  now :: int
  mode :: string
  countValue :: "int option"
  random :: "nat \<Rightarrow> unit_random"

definition COLORS :: "string list" where
  "COLORS = [''#e6194b'', ''#3cb44b'', ''#ffe119'', ''#0082c8'', ''#f58231'',
             ''#911eb4'', ''#46f0f0'', ''#f032e6'', ''#d2f53c'', ''#fabebe'']"

definition COLOR_NAMES :: "(string \<times> string) list" where
  "COLOR_NAMES = [(''#e6194b'', ''Red''), (''#3cb44b'', ''Green''), (''#ffe119'', ''Yellow''),
                  (''#0082c8'', ''Blue''), (''#f58231'', ''Orange''), (''#911eb4'', ''Purple''),
                  (''#46f0f0'', ''Cyan''), (''#f032e6'', ''Magenta''), (''#d2f53c'', ''Lime''),
                  (''#fabebe'', ''Pink'')]"

definition INACTIVITY_TIMEOUT :: int where
  "INACTIVITY_TIMEOUT = 5000"

subsection \<open>JavaScript primitives\<close>

text \<open>
  \<open>Object.keys\<close> lists the integer-like keys (array indices, 0 up to \<open>2^32 - 2\<close>) in
  ascending order first and the other keys in creation order after them.
\<close>

definition is_array_index :: "int \<Rightarrow> bool" where
  "is_array_index k \<longleftrightarrow> 0 \<le> k \<and> k < 4294967295"

definition object_keys :: "registry \<Rightarrow> int list" where
  "object_keys td =
     sort (filter is_array_index (map fst td)) @
     filter (\<lambda>k. \<not> is_array_index k) (map fst td)"

text \<open>The remainder operator \<open>%\<close> on integers: the sign follows the dividend.\<close>

definition js_rem :: "int \<Rightarrow> int \<Rightarrow> int" where
  "js_rem a b = sgn a * (\<bar>a\<bar> mod \<bar>b\<bar>)"

text \<open>\<open>COLORS[id % COLORS.length]\<close>: an index outside the array reads \<open>undefined\<close>.\<close>

definition palette :: "int \<Rightarrow> string option" where
  "palette i =
     (let r = js_rem i (int (length COLORS))
      in if 0 \<le> r \<and> r < int (length COLORS) then Some (COLORS ! nat r) else None)"

text \<open>\<open>Math.floor(Math.random() * n)\<close> for one result \<open>r\<close> of \<open>Math.random()\<close>.\<close>

definition randomIndex :: "unit_random \<Rightarrow> nat \<Rightarrow> nat" where
  "randomIndex r n = nat \<lfloor>Rep_unit_random r * real n\<rfloor>"

text \<open>
  The browser's timers. \<open>setTimeout\<close> registers a deadline under a fresh handle;
  \<open>clearTimeout\<close> removes the handle if it is pending.
\<close>

definition clearTimeout :: "nat \<Rightarrow> session \<Rightarrow> session" where
  "clearTimeout h s = s\<lparr>timers := filter (\<lambda>p. fst p \<noteq> h) (timers s)\<rparr>"

definition setTimeout :: "int \<Rightarrow> int \<Rightarrow> session \<Rightarrow> nat \<times> session" where
  "setTimeout t delay s =
     (nextTimer s,
      s\<lparr>timers := timers s @ [(nextTimer s, t + delay)], nextTimer := Suc (nextTimer s)\<rparr>)"

subsection \<open>Event handlers\<close>

definition newContact :: "touch \<Rightarrow> contact" where
  "newContact t =
     \<lparr>pos_x = clientX t, pos_y = clientY t, color = palette (ident t),
      angle = 0, radius = 100, active = True\<rparr>"

text \<open>The body of the loop over \<open>ev.changedTouches\<close> in \<open>handleTouchStart\<close>.\<close>

definition touchStart_body :: "touch \<Rightarrow> registry \<Rightarrow> registry" where
  "touchStart_body t td =
     (if length (object_keys td) < 10
      then AList.update (ident t) (newContact t) td
      else td)"

definition handleTouchStart :: "int \<Rightarrow> touch list \<Rightarrow> session \<Rightarrow> session" where
  "handleTouchStart t ev s =
     (if locked s then s
      else let s1 = s\<lparr>hintDisplay := ''none'', showingResult := False\<rparr>;
               s2 = s1\<lparr>touchesData := fold touchStart_body ev (touchesData s1)\<rparr>
           in s2\<lparr>lastTouchTime := t\<rparr>)"

definition touchMove_body :: "touch \<Rightarrow> registry \<Rightarrow> registry" where
  "touchMove_body t td =
     (if map_of td (ident t) \<noteq> None
      then AList.map_entry (ident t) (\<lambda>c. c\<lparr>pos_x := clientX t, pos_y := clientY t\<rparr>) td
      else td)"

definition handleTouchMove :: "touch list \<Rightarrow> session \<Rightarrow> session" where
  "handleTouchMove ev s =
     (if locked s then s
      else s\<lparr>touchesData := fold touchMove_body ev (touchesData s)\<rparr>)"

definition touchEnd_body :: "touch \<Rightarrow> registry \<Rightarrow> registry" where
  "touchEnd_body t td =
     (if map_of td (ident t) \<noteq> None then AList.delete (ident t) td else td)"

definition handleTouchEnd :: "int \<Rightarrow> touch list \<Rightarrow> session \<Rightarrow> session" where
  "handleTouchEnd t ev s =
     (if locked s then s
      else let s1 = s\<lparr>showingResult := False\<rparr>;
               s2 = s1\<lparr>touchesData := fold touchEnd_body ev (touchesData s1)\<rparr>
           in s2\<lparr>lastTouchTime := t\<rparr>)"

definition resetAll :: "session \<Rightarrow> session" where
  "resetAll s =
     (let s1 = s\<lparr>touchesData := [], showingResult := False, locked := False,
                  lastTouchTime := 0, teams := [], hintDisplay := ''block'',
                  overlayDisplay := ''none'', overlayHTML := ''''\<rparr>
      in case resultTimer s1 of
           None \<Rightarrow> s1
         | Some h \<Rightarrow> if h \<noteq> 0 then (clearTimeout h s1)\<lparr>resultTimer := None\<rparr> else s1)"

subsection \<open>The lock routine\<close>

text \<open>How a template literal prints a value that may be \<open>undefined\<close>.\<close>

definition js_str :: "string option \<Rightarrow> string" where
  "js_str v = (case v of None \<Rightarrow> ''undefined'' | Some t \<Rightarrow> t)"

text \<open>\<open>COLOR_NAMES[colorCode] || colorCode\<close>; every name in the table is a non-empty string.\<close>

definition getColorName :: "string option \<Rightarrow> string option" where
  "getColorName colorCode =
     (case colorCode of
        None \<Rightarrow> None
      | Some c \<Rightarrow> (case map_of COLOR_NAMES c of Some n \<Rightarrow> Some n | None \<Rightarrow> Some c))"

fun string_of_nat :: "nat \<Rightarrow> string" where
  "string_of_nat n =
     (if n < 10 then [char_of (48 + n)]
      else string_of_nat (n div 10) @ [char_of (48 + n mod 10)])"

fun join :: "string \<Rightarrow> string list \<Rightarrow> string" where
  "join sep [] = []"
| "join sep [x] = x"
| "join sep (x # y # ys) = x @ sep @ join sep (y # ys)"

definition colorSpan :: "string option \<Rightarrow> string" where
  "colorSpan c =
     ''<span style='' @ [CHR 0x22] @ ''color:'' @ js_str c @ [CHR 0x22] @ ''>'' @
     js_str (getColorName c) @ ''</span>''"

text \<open>
  \<open>touchesData[id].color\<close>. The identifiers looked up come from \<open>Object.keys(touchesData)\<close>,
  so the entry is always there (lemma \<open>color_at_key\<close> below).
\<close>

definition color_at :: "registry \<Rightarrow> int \<Rightarrow> string option" where
  "color_at td i = (case map_of td i of None \<Rightarrow> None | Some c \<Rightarrow> color c)"

text \<open>\<open>activeKeys[Math.floor(Math.random() * activeKeys.length)]\<close>, the first random draw.\<close>

definition chosenKey :: "env \<Rightarrow> registry \<Rightarrow> int" where
  "chosenKey e td =
     object_keys td ! randomIndex (random e 0) (length (object_keys td))"

text \<open>The branch \<open>mode === 'choose'\<close>.\<close>

definition choose_branch :: "env \<Rightarrow> session \<Rightarrow> session" where
  "choose_branch e s =
     (let activeKeys = object_keys (touchesData s);
          key = chosenKey e (touchesData s);
          td = fold (\<lambda>i td. if i \<noteq> key
                              then AList.map_entry i (\<lambda>c. c\<lparr>active := False\<rparr>) td
                              else td)
                    activeKeys (touchesData s);
          chosenColor = color_at td key
      in s\<lparr>touchesData := td,
           overlayHTML := ''Winner: '' @ colorSpan chosenColor,
           overlayDisplay := ''block''\<rparr>)"

text \<open>
  The two clamps of the team count. \<open>NaN\<close> compares false with everything, so it passes
  both unchanged.
\<close>

definition clampTeamCount :: "int option \<Rightarrow> nat \<Rightarrow> int option" where
  "clampTeamCount parsed n =
     (let teamCount = parsed;
          teamCount = (case teamCount of
                         Some k \<Rightarrow> if k < 1 then Some 1 else Some k
                       | None \<Rightarrow> None);
          teamCount = (case teamCount of
                         Some k \<Rightarrow> if k > int n then Some (int n) else Some k
                       | None \<Rightarrow> None)
      in teamCount)"

definition touchArray :: "registry \<Rightarrow> member list" where
  "touchArray td = map (\<lambda>i. \<lparr>m_id = i, m_color = color_at td i\<rparr>) (object_keys td)"

text \<open>
  The shuffle loop, \<open>for (i = length - 1; i > 0; i--)\<close>, with \<open>c\<close> counting the calls of
  \<open>Math.random()\<close>. The destructuring swap reads both elements before it writes.
\<close>

fun shuffle :: "(nat \<Rightarrow> unit_random) \<Rightarrow> nat \<Rightarrow> nat \<Rightarrow> 'a list \<Rightarrow> 'a list" where
  "shuffle rnd c 0 a = a"
| "shuffle rnd c (Suc i) a =
     (let j = randomIndex (rnd c) (Suc i + 1)
      in shuffle rnd (Suc c) i (a[Suc i := a ! j, j := a ! Suc i]))"

definition shuffled :: "env \<Rightarrow> registry \<Rightarrow> member list" where
  "shuffled e td = shuffle (random e) 0 (length (touchArray td) - 1) (touchArray td)"

text \<open>\<open>teams = []\<close> followed by \<open>teamCount\<close> pushes of an empty array; none for \<open>NaN\<close>.\<close>

definition emptyTeams :: "int option \<Rightarrow> member list list" where
  "emptyTeams teamCount = replicate (case teamCount of Some k \<Rightarrow> nat k | None \<Rightarrow> 0) []"

text \<open>\<open>(index + 1) % teamCount\<close>; the remainder by zero or by \<open>NaN\<close> is \<open>NaN\<close>.\<close>

definition next_index :: "int \<Rightarrow> int option \<Rightarrow> int option" where
  "next_index i teamCount =
     (case teamCount of
        None \<Rightarrow> None
      | Some k \<Rightarrow> if k = 0 then None else Some (js_rem (i + 1) k))"

text \<open>
  The distribution loop. \<open>teams[index].push(touchObj)\<close> throws a \<open>TypeError\<close> when
  \<open>teams[index]\<close> is \<open>undefined\<close>; the array built so far stays in the global \<open>teams\<close>.
\<close>

fun distribute ::
  "int option \<Rightarrow> member list list \<Rightarrow> int option \<Rightarrow> member list
     \<Rightarrow> js_error option \<times> member list list" where
  "distribute teamCount tms index [] = (None, tms)"
| "distribute teamCount tms index (touchObj # rest) =
     (case index of
        None \<Rightarrow> (Some TypeError, tms)
      | Some i \<Rightarrow>
          if 0 \<le> i \<and> i < int (length tms)
          then distribute teamCount (tms[nat i := tms ! nat i @ [touchObj]])
                 (next_index i teamCount) rest
          else (Some TypeError, tms))"

definition resultText :: "member list list \<Rightarrow> string" where
  "resultText tms =
     concat (map (\<lambda>(i, team).
                    ''Team '' @ string_of_nat (i + 1) @ '': '' @
                    join '', '' (map (\<lambda>m. colorSpan (m_color m)) team) @ ''<br>'')
                 (zip [0 ..< length tms] tms))"

text \<open>The branch \<open>mode === 'team'\<close>.\<close>

definition team_branch :: "env \<Rightarrow> session \<Rightarrow> js_error option \<times> session" where
  "team_branch e s =
     (let activeKeys = object_keys (touchesData s);
          teamCount = clampTeamCount (countValue e) (length activeKeys);
          arr = shuffled e (touchesData s);
          (err, tms) = distribute teamCount (emptyTeams teamCount) (Some 0) arr;
          s1 = s\<lparr>teams := tms\<rparr>
      in case err of
           Some x \<Rightarrow> (Some x, s1)
         | None \<Rightarrow> (None, s1\<lparr>overlayHTML := resultText tms, overlayDisplay := ''block''\<rparr>))"

text \<open>
  The last statements of \<open>lockAndShowResult\<close>: cancel the timeout whose handle is in
  \<open>resultTimer\<close>, if there is one, and start a new one of 10000 ms.
\<close>

definition scheduleReset :: "int \<Rightarrow> session \<Rightarrow> session" where
  "scheduleReset t s =
     (let s1 = (case resultTimer s of
                  None \<Rightarrow> s
                | Some h \<Rightarrow> if h \<noteq> 0 then clearTimeout h s else s);
          (h, s2) = setTimeout t 10000 s1
      in s2\<lparr>resultTimer := Some h\<rparr>)"

text \<open>
  \<open>lockAndShowResult\<close>. The first component of the result is the exception that left the
  function, if any; the state is the one the function left behind. A mode other than the
  two known ones runs neither branch.
\<close>

definition lockAndShowResult :: "env \<Rightarrow> session \<Rightarrow> js_error option \<times> session" where
  "lockAndShowResult e s =
     (let s1 = s\<lparr>locked := True, showingResult := True\<rparr>;
          activeKeys = object_keys (touchesData s1)
      in if length activeKeys = 0 then (None, s1)
         else
           let (err, s2) = (if mode e = ''choose'' then (None, choose_branch e s1)
                            else if mode e = ''team'' then team_branch e s1
                            else (None, s1))
           in case err of
                Some x \<Rightarrow> (Some x, s2)
              | None \<Rightarrow> (None, scheduleReset (now e) s2))"

subsection \<open>The frame loop\<close>

text \<open>The rotation and pulsation of one aim: \<open>angle += 0.05\<close>, then the radius from the new angle.\<close>

definition animate :: "contact \<Rightarrow> contact" where
  "animate data =
     (let data1 = data\<lparr>angle := angle data + 5 / 100\<rparr>
      in data1\<lparr>radius := 80 + 40 * \<bar>sin (angle data1)\<bar>\<rparr>)"

text \<open>The condition under which a frame calls \<open>lockAndShowResult\<close>.\<close>

definition shouldLock :: "env \<Rightarrow> session \<Rightarrow> bool" where
  "shouldLock e s \<longleftrightarrow>
     \<not> locked s \<and> \<not> showingResult s \<and>
     now e - lastTouchTime s > INACTIVITY_TIMEOUT \<and>
     length (object_keys (touchesData s)) > 0"

definition drawLoop :: "env \<Rightarrow> session \<Rightarrow> js_error option \<times> session" where
  "drawLoop e s =
     (let s1 = (if length (object_keys (touchesData s)) = 0 \<and> \<not> showingResult s
                then s\<lparr>hintDisplay := ''block''\<rparr> else s);
          s2 = s1\<lparr>touchesData :=
                    map (\<lambda>(i, data). (i, if active data then animate data else data))
                        (touchesData s1)\<rparr>
      in if shouldLock e s2 then lockAndShowResult e s2 else (None, s2))"

subsection \<open>Runs of the page\<close>

text \<open>
  A pending timeout whose deadline has passed may fire: the browser drops it and runs the
  callback, which is \<open>resetAll\<close>.
\<close>

definition fireTimer :: "int \<Rightarrow> nat \<Rightarrow> session \<Rightarrow> session" where
  "fireTimer t h s =
     (case map_of (timers s) h of
        None \<Rightarrow> s
      | Some d \<Rightarrow> if d \<le> t then resetAll (clearTimeout h s) else s)"

text \<open>
  What can happen to the page: the four touch events with the time they arrive at (a move
  reads no clock), a frame, a change of the mode or of the count field, and a timeout
  firing. \<open>touchend\<close> and \<open>touchcancel\<close> share a handler.
\<close>

datatype event =
    TouchStart int "touch list"
  | TouchMove "touch list"
  | TouchEnd int "touch list"
  | TouchCancel int "touch list"
  | Frame env
  | Change
  | Timeout int nat

fun step :: "event \<Rightarrow> session \<Rightarrow> session" where
  "step (TouchStart t ev) s = handleTouchStart t ev s"
| "step (TouchMove ev) s = handleTouchMove ev s"
| "step (TouchEnd t ev) s = handleTouchEnd t ev s"
| "step (TouchCancel t ev) s = handleTouchEnd t ev s"
| "step (Frame e) s = snd (drawLoop e s)"
| "step Change s = resetAll s"
| "step (Timeout t h) s = fireTimer t h s"

definition run :: "event list \<Rightarrow> session \<Rightarrow> session" where
  "run es s = fold step es s"

text \<open>
  The state after the script has loaded: the initial values of its globals, no timeout
  pending. What the page's markup puts into the hint and the overlay is not fixed.
\<close>

definition is_initial :: "session \<Rightarrow> bool" where
  "is_initial s \<longleftrightarrow>
     touchesData s = [] \<and> lastTouchTime s = 0 \<and> \<not> showingResult s \<and> \<not> locked s \<and>
     resultTimer s = None \<and> teams s = [] \<and> timers s = [] \<and> 0 < nextTimer s"

definition initial :: session where
  "initial =
     \<lparr>touchesData = [], lastTouchTime = 0, showingResult = False, locked = False,
      resultTimer = None, teams = [], hintDisplay = ''block'', overlayDisplay = ''none'',
      overlayHTML = '''', timers = [], nextTimer = 1\<rparr>"

inductive reachable :: "session \<Rightarrow> bool" where
  reach_start: "is_initial s \<Longrightarrow> reachable s"
| reach_step: "reachable s \<Longrightarrow> reachable (step ev s)"

text \<open>
  The positions below \<open>n\<close> that the round-robin deal gives to team \<open>t\<close> of \<open>K\<close> teams, in
  the order in which they are dealt. This is the yardstick of the claim about teams, not
  part of the script.
\<close>

definition team_positions :: "nat \<Rightarrow> nat \<Rightarrow> nat \<Rightarrow> nat list" where
  "team_positions K t n = filter (\<lambda>p. p mod K = t) [0 ..< n]"

subsection \<open>Well-formed sessions and sample runs\<close>

text \<open>
  What every state of a run satisfies: the registry has distinct keys and at most ten of
  them; while the session is not locked every contact is active and no timeout is pending;
  a locked session has contacts; a pending timeout is the one whose handle is in
  \<open>resultTimer\<close>.
\<close>

definition session_inv :: "session \<Rightarrow> bool" where
  "session_inv s \<longleftrightarrow>
     distinct (map fst (touchesData s)) \<and> length (touchesData s) \<le> 10 \<and>
     (locked s \<or>
        (list_all (\<lambda>p. active (snd p)) (touchesData s) \<and> timers s = [] \<and> resultTimer s = None)) \<and>
     (\<not> locked s \<or> touchesData s \<noteq> []) \<and>
     list_all (\<lambda>p. resultTimer s = Some (fst p)) (timers s) \<and>
     resultTimer s \<noteq> Some 0 \<and> 0 < nextTimer s"

text \<open>Touches, environments and states used as concrete inputs below.\<close>

definition touch_a :: touch where "touch_a = \<lparr>ident = 0, clientX = 10, clientY = 20\<rparr>"
definition touch_b :: touch where "touch_b = \<lparr>ident = 1, clientX = 30, clientY = 40\<rparr>"
definition touch_c :: touch where "touch_c = \<lparr>ident = 2, clientX = 50, clientY = 60\<rparr>"
definition touch_absent :: touch where "touch_absent = \<lparr>ident = 7, clientX = 0, clientY = 0\<rparr>"
definition three_down :: session where
  "three_down = handleTouchStart 1000 [touch_a, touch_b, touch_c] initial"
definition env_choose :: env where
  "env_choose = \<lparr>now = 7000, mode = ''choose'', countValue = Some 2, random = (\<lambda>_. random_half)\<rparr>"
definition locked_example :: session where
  "locked_example = snd (drawLoop env_choose three_down)"
definition eleven_touches :: "touch list" where
  "eleven_touches = map (\<lambda>i. \<lparr>ident = int i, clientX = 0, clientY = 0\<rparr>) [0 ..< 11]"
definition ten_down :: session where
  "ten_down = handleTouchStart 1000 (take 10 eleven_touches) initial"

definition env_team_nan :: env where
  "env_team_nan = \<lparr>now = 7000, mode = ''team'', countValue = None, random = (\<lambda>_. random_half)\<rparr>"

definition env_team :: env where
  "env_team = \<lparr>now = 7000, mode = ''team'', countValue = Some 2, random = (\<lambda>_. random_half)\<rparr>"
definition env_team_neg :: env where
  "env_team_neg = \<lparr>now = 7000, mode = ''team'', countValue = Some (- 3), random = (\<lambda>_. random_half)\<rparr>"

section \<open>Properties of the primitives and the handlers\<close>

lemma mset_object_keys: "mset (object_keys td) = mset (map fst td)"
  unfolding object_keys_def by (simp add: multiset_partition [symmetric])

lemma length_object_keys: "length (object_keys td) = length td"
  using mset_eq_length [OF mset_object_keys, of td] by simp

lemma set_object_keys: "set (object_keys td) = fst ` set td"
  using mset_eq_setD [OF mset_object_keys, of td] by simp

lemma distinct_object_keys: "distinct (map fst td) \<Longrightarrow> distinct (object_keys td)"
  using mset_eq_imp_distinct_iff [OF mset_object_keys, of td] by simp

lemma randomIndex_less: "0 < n \<Longrightarrow> randomIndex r n < n"
proof -
  assume n: "0 < n"
  have r: "0 \<le> Rep_unit_random r" "Rep_unit_random r < 1"
    using Rep_unit_random [of r] by auto
  have "Rep_unit_random r * real n < real n"
    using r n by simp
  then have "\<lfloor>Rep_unit_random r * real n\<rfloor> < int n"
    by (simp add: floor_less_iff)
  then show ?thesis
    unfolding randomIndex_def using n by linarith
qed

lemma map_fst_map_entry: "map fst (AList.map_entry k f td) = map fst td"
  by (induction td) auto

lemma length_update_le: "length (AList.update k v td) \<le> Suc (length td)"
  by (induction td) auto

lemma fold_touchEnd_absent:
  "\<forall>t \<in> set ev. map_of td (ident t) = None \<Longrightarrow> fold touchEnd_body ev td = td"
  by (induction ev) (simp_all add: touchEnd_body_def)

lemma resetAll_idem: "resetAll (resetAll s) = resetAll s"
  by (cases "resultTimer s") (simp_all add: resetAll_def clearTimeout_def Let_def)

lemma resetAll_fields:
  "touchesData (resetAll s) = []" "teams (resetAll s) = []" "overlayHTML (resetAll s) = []"
  "overlayDisplay (resetAll s) = ''none''" "hintDisplay (resetAll s) = ''block''"
  "\<not> locked (resetAll s)" "\<not> showingResult (resetAll s)" "lastTouchTime (resetAll s) = 0"
  by (cases "resultTimer s"; simp add: resetAll_def clearTimeout_def Let_def)+

lemma animate_active: "active (animate c) = active c"
  by (simp add: animate_def)

lemma lock_locked: "locked (snd (lockAndShowResult e s))"
  by (auto simp: lockAndShowResult_def choose_branch_def team_branch_def scheduleReset_def Let_def setTimeout_def clearTimeout_def
      split: prod.splits option.splits)

lemma update_list_all: "list_all P td \<Longrightarrow> P (k, v) \<Longrightarrow> list_all P (AList.update k v td)"
  by (induction td) auto

lemma touchStart_body_props:
  "length td \<le> 10 \<Longrightarrow> length (touchStart_body t td) \<le> 10"
  "distinct (map fst td) \<Longrightarrow> distinct (map fst (touchStart_body t td))"
  "list_all (\<lambda>p. active (snd p)) td \<Longrightarrow> list_all (\<lambda>p. active (snd p)) (touchStart_body t td)"
proof -
  show "length td \<le> 10 \<Longrightarrow> length (touchStart_body t td) \<le> 10"
    using length_update_le [of "ident t" "newContact t" td]
    by (simp add: touchStart_body_def length_object_keys)
  show "distinct (map fst td) \<Longrightarrow> distinct (map fst (touchStart_body t td))"
    by (simp add: touchStart_body_def distinct_update)
  show "list_all (\<lambda>p. active (snd p)) td \<Longrightarrow> list_all (\<lambda>p. active (snd p)) (touchStart_body t td)"
    by (simp add: touchStart_body_def update_list_all newContact_def)
qed

lemma fold_touchStart_props:
  "length td \<le> 10 \<Longrightarrow> length (fold touchStart_body ev td) \<le> 10"
  "distinct (map fst td) \<Longrightarrow> distinct (map fst (fold touchStart_body ev td))"
  "list_all (\<lambda>p. active (snd p)) td \<Longrightarrow> list_all (\<lambda>p. active (snd p)) (fold touchStart_body ev td)"
  by (induction ev arbitrary: td; simp add: touchStart_body_props)+

lemma map_entry_active:
  "list_all (\<lambda>p. active (snd p)) td \<Longrightarrow> active (f c) = active c \<Longrightarrow> (\<And>c. active (f c) = active c) \<Longrightarrow>
   list_all (\<lambda>p. active (snd p)) (AList.map_entry k f td)"
  by (induction td) auto

lemma touchMove_body_props:
  "map fst (touchMove_body t td) = map fst td"
  "list_all (\<lambda>p. active (snd p)) td \<Longrightarrow> list_all (\<lambda>p. active (snd p)) (touchMove_body t td)"
  by (simp_all add: touchMove_body_def map_fst_map_entry map_entry_active)

lemma fold_touchMove_props:
  "map fst (fold touchMove_body ev td) = map fst td"
  "list_all (\<lambda>p. active (snd p)) td \<Longrightarrow> list_all (\<lambda>p. active (snd p)) (fold touchMove_body ev td)"
  by (induction ev arbitrary: td; simp add: touchMove_body_props)+

lemma delete_active:
  "list_all (\<lambda>p. active (snd p)) td \<Longrightarrow> list_all (\<lambda>p. active (snd p)) (AList.delete k td)"
  by (induction td) auto

lemma touchEnd_body_props:
  "length (touchEnd_body t td) \<le> length td"
  "distinct (map fst td) \<Longrightarrow> distinct (map fst (touchEnd_body t td))"
  "list_all (\<lambda>p. active (snd p)) td \<Longrightarrow> list_all (\<lambda>p. active (snd p)) (touchEnd_body t td)"
  by (simp_all add: touchEnd_body_def length_delete_le distinct_delete delete_active)

lemma fold_touchEnd_props:
  "length (fold touchEnd_body ev td) \<le> length td"
  "distinct (map fst td) \<Longrightarrow> distinct (map fst (fold touchEnd_body ev td))"
  "list_all (\<lambda>p. active (snd p)) td \<Longrightarrow> list_all (\<lambda>p. active (snd p)) (fold touchEnd_body ev td)"
proof -
  show "length (fold touchEnd_body ev td) \<le> length td"
  proof (induction ev arbitrary: td)
    case Nil
    show ?case by simp
  next
    case (Cons t ev)
    have "length (fold touchEnd_body ev (touchEnd_body t td)) \<le> length (touchEnd_body t td)"
      by (rule Cons.IH)
    also have "\<dots> \<le> length td"
      by (rule touchEnd_body_props)
    finally show ?case by simp
  qed
  show "distinct (map fst td) \<Longrightarrow> distinct (map fst (fold touchEnd_body ev td))"
    by (induction ev arbitrary: td) (simp_all add: touchEnd_body_props)
  show "list_all (\<lambda>p. active (snd p)) td \<Longrightarrow> list_all (\<lambda>p. active (snd p)) (fold touchEnd_body ev td)"
    by (induction ev arbitrary: td) (simp_all add: touchEnd_body_props)
qed

lemma inv_handleTouchStart: "session_inv s \<Longrightarrow> session_inv (handleTouchStart t ev s)"
  by (auto simp: session_inv_def handleTouchStart_def Let_def fold_touchStart_props)

lemma inv_handleTouchMove: "session_inv s \<Longrightarrow> session_inv (handleTouchMove ev s)"
  using fold_touchMove_props(1) [of ev "touchesData s"] map_eq_imp_length_eq [OF fold_touchMove_props(1) [of ev "touchesData s"]]
  by (auto simp: session_inv_def handleTouchMove_def fold_touchMove_props)

lemma inv_handleTouchEnd: "session_inv s \<Longrightarrow> session_inv (handleTouchEnd t ev s)"
proof -
  assume inv: "session_inv s"
  then have "length (fold touchEnd_body ev (touchesData s)) \<le> 10"
    using fold_touchEnd_props(1) [of ev "touchesData s"] by (simp add: session_inv_def)
  with inv show ?thesis
    by (auto simp: session_inv_def handleTouchEnd_def Let_def fold_touchEnd_props)
qed

lemma timers_of_no_handle:
  "list_all (\<lambda>p. resultTimer s = Some (fst p)) (timers s) \<Longrightarrow> resultTimer s = None \<Longrightarrow> timers s = []"
  by (cases "timers s") auto

lemma timers_cleared:
  "list_all (\<lambda>p. resultTimer s = Some (fst p)) (timers s) \<Longrightarrow> resultTimer s = Some h \<Longrightarrow>
   filter (\<lambda>p. fst p \<noteq> h) (timers s) = []"
  by (auto simp: list_all_iff filter_empty_conv)

lemma inv_resetAll:
  assumes "list_all (\<lambda>p. resultTimer s = Some (fst p)) (timers s)" and "resultTimer s \<noteq> Some 0"
    and "0 < nextTimer s"
  shows "session_inv (resetAll s)"
proof (cases "resultTimer s")
  case None
  with assms timers_of_no_handle [of s] show ?thesis
    by (simp add: session_inv_def resetAll_def Let_def)
next
  case (Some h)
  with assms timers_cleared [of s h] show ?thesis
    by (simp add: session_inv_def resetAll_def clearTimeout_def Let_def)
qed

lemma inv_fireTimer: "session_inv s \<Longrightarrow> session_inv (fireTimer t h s)"
proof -
  assume inv: "session_inv s"
  have "session_inv (resetAll (clearTimeout h s))"
  proof (rule inv_resetAll)
    show "list_all (\<lambda>p. resultTimer (clearTimeout h s) = Some (fst p)) (timers (clearTimeout h s))"
      using inv by (simp add: session_inv_def clearTimeout_def list_all_iff)
    show "resultTimer (clearTimeout h s) \<noteq> Some 0"
      using inv by (simp add: session_inv_def clearTimeout_def)
    show "0 < nextTimer (clearTimeout h s)"
      using inv by (simp add: session_inv_def clearTimeout_def)
  qed
  with inv show ?thesis
    by (simp add: fireTimer_def split: option.splits)
qed

lemma map_entry_as_map:
  "distinct (map fst td) \<Longrightarrow>
   AList.map_entry k g td = map (\<lambda>p. if fst p = k then (fst p, g (snd p)) else p) td"
proof (induction td)
  case Nil
  show ?case by simp
next
  case (Cons p td)
  show ?case
  proof (cases "fst p = k")
    case True
    then have "\<forall>q \<in> set td. fst q \<noteq> k"
      using Cons.prems by (force simp: image_iff)
    then have "map (\<lambda>p. if fst p = k then (fst p, g (snd p)) else p) td = td"
      by (simp add: map_idI)
    with True show ?thesis by simp
  next
    case False
    with Cons show ?thesis by simp
  qed
qed

lemma fold_deactivate:
  "distinct (map fst td) \<Longrightarrow>
   fold (\<lambda>i td. if i \<noteq> key then AList.map_entry i (\<lambda>c. c\<lparr>active := False\<rparr>) td else td) ks td =
   map (\<lambda>p. if fst p \<in> set ks \<and> fst p \<noteq> key then (fst p, (snd p)\<lparr>active := False\<rparr>) else p) td"
proof (induction ks arbitrary: td)
  case Nil
  show ?case by (simp add: map_idI)
next
  case (Cons k ks)
  show ?case
  proof (cases "k = key")
    case True
    with Cons show ?thesis by (auto intro!: map_cong)
  next
    case False
    let ?td = "AList.map_entry k (\<lambda>c. c\<lparr>active := False\<rparr>) td"
    have d: "distinct (map fst ?td)"
      using Cons.prems by (simp add: map_fst_map_entry)
    have "fold (\<lambda>i td. if i \<noteq> key then AList.map_entry i (\<lambda>c. c\<lparr>active := False\<rparr>) td else td) (k # ks) td =
          fold (\<lambda>i td. if i \<noteq> key then AList.map_entry i (\<lambda>c. c\<lparr>active := False\<rparr>) td else td) ks ?td"
      using False by simp
    also have "\<dots> = map (\<lambda>p. if fst p \<in> set ks \<and> fst p \<noteq> key then (fst p, (snd p)\<lparr>active := False\<rparr>) else p) ?td"
      by (rule Cons.IH [OF d])
    also have "\<dots> = map (\<lambda>p. if fst p \<in> set (k # ks) \<and> fst p \<noteq> key then (fst p, (snd p)\<lparr>active := False\<rparr>) else p) td"
      using False by (auto simp: map_entry_as_map [OF Cons.prems])
    finally show ?thesis .
  qed
qed

lemma choose_registry:
  "distinct (map fst (touchesData s)) \<Longrightarrow>
   touchesData (choose_branch e s) =
     map (\<lambda>p. if fst p \<noteq> chosenKey e (touchesData s) then (fst p, (snd p)\<lparr>active := False\<rparr>) else p)
         (touchesData s)"
  by (simp add: choose_branch_def Let_def fold_deactivate set_object_keys cong: map_cong)

lemma choose_frame:
  "locked (choose_branch e s) = locked s" "showingResult (choose_branch e s) = showingResult s"
  "timers (choose_branch e s) = timers s" "resultTimer (choose_branch e s) = resultTimer s"
  "nextTimer (choose_branch e s) = nextTimer s" "teams (choose_branch e s) = teams s"
  "lastTouchTime (choose_branch e s) = lastTouchTime s"
  by (simp_all add: choose_branch_def Let_def)

lemma team_frame:
  "touchesData (snd (team_branch e s)) = touchesData s"
  "locked (snd (team_branch e s)) = locked s" "showingResult (snd (team_branch e s)) = showingResult s"
  "timers (snd (team_branch e s)) = timers s" "resultTimer (snd (team_branch e s)) = resultTimer s"
  "nextTimer (snd (team_branch e s)) = nextTimer s"
  "lastTouchTime (snd (team_branch e s)) = lastTouchTime s"
  by (simp_all add: team_branch_def Let_def split: prod.splits option.splits)

lemma scheduleReset_frame:
  "touchesData (scheduleReset t s) = touchesData s" "locked (scheduleReset t s) = locked s"
  "showingResult (scheduleReset t s) = showingResult s" "teams (scheduleReset t s) = teams s"
  "overlayHTML (scheduleReset t s) = overlayHTML s" "overlayDisplay (scheduleReset t s) = overlayDisplay s"
  "lastTouchTime (scheduleReset t s) = lastTouchTime s" "hintDisplay (scheduleReset t s) = hintDisplay s"
  "nextTimer (scheduleReset t s) = Suc (nextTimer s)"
  "resultTimer (scheduleReset t s) = Some (nextTimer s)"
  by (simp_all add: scheduleReset_def setTimeout_def clearTimeout_def Let_def split: option.splits)

lemma scheduleReset_timers:
  assumes "list_all (\<lambda>p. resultTimer s = Some (fst p)) (timers s)" and "resultTimer s \<noteq> Some 0"
  shows "timers (scheduleReset t s) = [(nextTimer s, t + 10000)]"
proof (cases "resultTimer s")
  case None
  with assms timers_of_no_handle [of s] show ?thesis
    by (simp add: scheduleReset_def setTimeout_def Let_def)
next
  case (Some h)
  with assms timers_cleared [of s h] show ?thesis
    by (simp add: scheduleReset_def setTimeout_def clearTimeout_def Let_def)
qed

section \<open>The invariant of runs\<close>

lemma lock_cases:
  "lockAndShowResult e s =
     (let s1 = s\<lparr>locked := True, showingResult := True\<rparr>
      in if touchesData s = [] then (None, s1)
         else if mode e = ''choose'' then (None, scheduleReset (now e) (choose_branch e s1))
         else if mode e = ''team''
           then (case fst (team_branch e s1) of
                   Some x \<Rightarrow> (Some x, snd (team_branch e s1))
                 | None \<Rightarrow> (None, scheduleReset (now e) (snd (team_branch e s1))))
         else (None, scheduleReset (now e) s1))"
proof -
  have "(length (object_keys (touchesData s)) = 0) = (touchesData s = [])"
    by (simp add: length_object_keys)
  then show ?thesis
    by (simp add: lockAndShowResult_def Let_def split: prod.splits option.splits)
qed

lemma choose_keys: "map fst (touchesData (choose_branch e s)) = map fst (touchesData s)"
proof -
  have "map fst (fold (\<lambda>i td. if i \<noteq> key then AList.map_entry i f td else td) ks td) = map fst td"
    for key f ks and td :: registry
    by (induction ks arbitrary: td) (simp_all add: map_fst_map_entry)
  then show ?thesis
    by (simp add: choose_branch_def Let_def)
qed

lemma lock_keys: "map fst (touchesData (snd (lockAndShowResult e s))) = map fst (touchesData s)"
  by (simp add: lock_cases Let_def scheduleReset_frame choose_keys team_frame split: option.splits)

lemma inv_locked_state:
  assumes "distinct (map fst (touchesData s))" and "length (touchesData s) \<le> 10"
    and "touchesData s \<noteq> []" and "locked s"
    and "list_all (\<lambda>p. resultTimer s = Some (fst p)) (timers s)"
    and "resultTimer s \<noteq> Some 0" and "0 < nextTimer s"
  shows "session_inv s" and "session_inv (scheduleReset t s)"
proof -
  show "session_inv s"
    using assms by (simp add: session_inv_def)
  have "timers (scheduleReset t s) = [(nextTimer s, t + 10000)]"
    using assms by (simp add: scheduleReset_timers)
  then show "session_inv (scheduleReset t s)"
    using assms by (simp add: session_inv_def scheduleReset_frame)
qed

lemma inv_lock:
  assumes inv: "session_inv s" and ne: "touchesData s \<noteq> []"
  shows "session_inv (snd (lockAndShowResult e s))"
proof -
  let ?s1 = "s\<lparr>locked := True, showingResult := True\<rparr>"
  have len: "length (touchesData (choose_branch e ?s1)) = length (touchesData s)"
    using map_eq_imp_length_eq [OF choose_keys [of e ?s1]] by simp
  have ne': "touchesData (choose_branch e ?s1) \<noteq> []"
    using len ne by auto
  have c: "session_inv (scheduleReset (now e) (choose_branch e ?s1))"
    using inv len ne'
    by (intro inv_locked_state) (simp_all add: session_inv_def choose_frame choose_keys)
  have t: "session_inv (snd (team_branch e ?s1))" "session_inv (scheduleReset (now e) (snd (team_branch e ?s1)))"
    using inv ne
    by (intro inv_locked_state; simp add: session_inv_def team_frame)+
  have o: "session_inv (scheduleReset (now e) ?s1)"
    using inv ne
    by (intro inv_locked_state) (simp_all add: session_inv_def)
  show ?thesis
    using c t o ne by (simp add: lock_cases Let_def split: option.splits)
qed

lemma animate_keys:
  "map (fst \<circ> (\<lambda>(i, data). (i, if active data then animate data else data))) td = map fst td"
  by (induction td) auto

lemma animate_all_active:
  "list_all (\<lambda>p. active (snd p)) (map (\<lambda>(i, data). (i, if active data then animate data else data)) td)
     = list_all (\<lambda>p. active (snd p)) td"
  by (induction td) (auto simp: animate_active split: if_splits)

lemma drawLoop_cases:
  "drawLoop e s =
     (let s2 = s\<lparr>hintDisplay := (if touchesData s = [] \<and> \<not> showingResult s then ''block'' else hintDisplay s),
                  touchesData := map (\<lambda>(i, data). (i, if active data then animate data else data))
                                     (touchesData s)\<rparr>
      in if \<not> locked s \<and> \<not> showingResult s \<and> 5000 < now e - lastTouchTime s \<and> touchesData s \<noteq> []
         then lockAndShowResult e s2 else (None, s2))"
  by (simp add: drawLoop_def shouldLock_def Let_def length_object_keys INACTIVITY_TIMEOUT_def)

lemma inv_drawLoop: "session_inv s \<Longrightarrow> session_inv (snd (drawLoop e s))"
proof -
  assume inv: "session_inv s"
  let ?s2 = "s\<lparr>hintDisplay := (if touchesData s = [] \<and> \<not> showingResult s then ''block'' else hintDisplay s),
                touchesData := map (\<lambda>(i, data). (i, if active data then animate data else data))
                                   (touchesData s)\<rparr>"
  have inv2: "session_inv ?s2"
    using inv by (simp add: session_inv_def animate_keys animate_all_active)
  have "touchesData s \<noteq> [] \<Longrightarrow> session_inv (snd (lockAndShowResult e ?s2))"
    using inv2 by (intro inv_lock) simp_all
  with inv2 show ?thesis
    by (simp add: drawLoop_cases Let_def)
qed

lemma inv_step: "session_inv s \<Longrightarrow> session_inv (step ev s)"
proof (cases ev)
  case Change
  assume "session_inv s"
  then have "session_inv (resetAll s)"
    by (intro inv_resetAll) (simp_all add: session_inv_def)
  with Change show ?thesis by simp
qed (simp_all add: inv_handleTouchStart inv_handleTouchMove inv_handleTouchEnd inv_drawLoop inv_fireTimer)

lemma inv_initial: "is_initial s \<Longrightarrow> session_inv s"
  by (simp add: is_initial_def session_inv_def)

lemma reachable_inv: "reachable s \<Longrightarrow> session_inv s"
  by (induction rule: reachable.induct) (simp_all add: inv_initial inv_step)

lemma reachable_run: "reachable s \<Longrightarrow> reachable (run es s)"
  unfolding run_def by (induction es arbitrary: s) (simp_all add: reach_step)

lemma reachable_initial: "reachable initial"
  by (rule reach_start) (simp add: is_initial_def initial_def)

lemma three_down_fields:
  "map fst (touchesData three_down) = [0, 1, 2]"
  "\<not> locked three_down" "\<not> showingResult three_down" "lastTouchTime three_down = 1000"
  by (simp_all add: three_down_def handleTouchStart_def initial_def touchStart_body_def
      length_object_keys touch_a_def touch_b_def touch_c_def Let_def)

lemma three_down_nonempty: "touchesData three_down \<noteq> []"
  using three_down_fields(1) by auto

lemma reachable_three_down: "reachable three_down"
  using reach_step [OF reachable_initial, of "TouchStart 1000 [touch_a, touch_b, touch_c]"]
  by (simp add: three_down_def)

lemma frame_locked_iff:
  "locked (snd (drawLoop e s)) \<longleftrightarrow>
     locked s \<or> (\<not> showingResult s \<and> touchesData s \<noteq> [] \<and> 5000 < now e - lastTouchTime s)"
  by (auto simp: drawLoop_cases Let_def lock_locked)

lemma locked_locked_example: "locked locked_example"
  by (simp add: locked_example_def frame_locked_iff three_down_fields three_down_nonempty env_choose_def)

lemma reachable_locked_example: "reachable locked_example"
  using reach_step [OF reachable_three_down, of "Frame env_choose"]
  by (simp add: locked_example_def)

lemma step_capacity: "length (touchesData s) \<le> 10 \<Longrightarrow> length (touchesData (step ev s)) \<le> 10"
proof (cases ev)
  case (TouchStart t ts)
  assume "length (touchesData s) \<le> 10"
  then show ?thesis
    by (simp add: TouchStart handleTouchStart_def Let_def fold_touchStart_props)
next
  case (TouchMove ts)
  assume "length (touchesData s) \<le> 10"
  then show ?thesis
    using map_eq_imp_length_eq [OF fold_touchMove_props(1) [of ts "touchesData s"]]
    by (simp add: TouchMove handleTouchMove_def)
next
  case (TouchEnd t ts)
  assume "length (touchesData s) \<le> 10"
  then show ?thesis
    using fold_touchEnd_props(1) [of ts "touchesData s"]
    by (simp add: TouchEnd handleTouchEnd_def Let_def)
next
  case (TouchCancel t ts)
  assume "length (touchesData s) \<le> 10"
  then show ?thesis
    using fold_touchEnd_props(1) [of ts "touchesData s"]
    by (simp add: TouchCancel handleTouchEnd_def Let_def)
next
  case (Frame e)
  assume "length (touchesData s) \<le> 10"
  then show ?thesis
    using map_eq_imp_length_eq [OF lock_keys, of e]
    by (simp add: Frame drawLoop_cases Let_def)
next
  case Change
  show ?thesis by (simp add: Change resetAll_fields)
next
  case (Timeout t h)
  assume "length (touchesData s) \<le> 10"
  then show ?thesis
    by (simp add: Timeout fireTimer_def resetAll_fields split: option.splits)
qed

lemma run_capacity: "length (touchesData s) \<le> 10 \<Longrightarrow> length (touchesData (run es s)) \<le> 10"
  unfolding run_def by (induction es arbitrary: s) (simp_all add: step_capacity)

lemma fold_touchStart_full: "10 \<le> length td \<Longrightarrow> fold touchStart_body ev td = td"
  by (induction ev) (simp_all add: touchStart_body_def length_object_keys)

lemma ten_down_length: "length (touchesData ten_down) = 10"
  by (simp add: ten_down_def eleven_touches_def handleTouchStart_def initial_def touchStart_body_def
      length_object_keys Let_def upt_rec [of _ "numeral _"])

section \<open>The lock routine and the timer\<close>

lemma chosenKey_in_keys: "td \<noteq> [] \<Longrightarrow> chosenKey e td \<in> set (object_keys td)"
  unfolding chosenKey_def
  by (intro nth_mem randomIndex_less) (simp add: length_object_keys)

lemma distinct_filter_eq_one:
  "distinct xs \<Longrightarrow> x \<in> set xs \<Longrightarrow> length (filter (\<lambda>k. k = x) xs) = 1"
  by (induction xs) (auto simp: filter_empty_conv)

lemma lock_choose:
  assumes "touchesData s \<noteq> []" and "mode e = ''choose''"
  shows "lockAndShowResult e s =
           (None, scheduleReset (now e) (choose_branch e (s\<lparr>locked := True, showingResult := True\<rparr>)))"
  using assms by (simp add: lock_cases Let_def)

lemma choose_result:
  assumes d: "distinct (map fst td)" and a: "list_all (\<lambda>p. active (snd p)) td" and k: "key \<in> fst ` set td"
  defines "td' \<equiv> map (\<lambda>p. if fst p \<noteq> key then (fst p, (snd p)\<lparr>active := False\<rparr>) else p) td"
  shows "map fst td' = map fst td"
    and "\<forall>p \<in> set td'. active (snd p) \<longleftrightarrow> fst p = key"
    and "length (filter (\<lambda>p. active (snd p)) td') = 1"
proof -
  show keys: "map fst td' = map fst td"
    unfolding td'_def by (induction td) auto
  show act: "\<forall>p \<in> set td'. active (snd p) \<longleftrightarrow> fst p = key"
    using a unfolding td'_def by (auto simp: list_all_iff)
  have "filter (\<lambda>p. active (snd p)) td' = filter (\<lambda>p. fst p = key) td'"
    using act by (intro filter_cong) auto
  also have "length \<dots> = length (filter (\<lambda>k. k = key) (map fst td'))"
    by (induction td') auto
  also have "\<dots> = 1"
    unfolding keys using d k by (intro distinct_filter_eq_one) simp_all
  finally show "length (filter (\<lambda>p. active (snd p)) td') = 1" .
qed


lemma map_entry_position:
  "list_all2 (\<lambda>p q. fst q = fst p \<and> color (snd q) = color (snd p) \<and> angle (snd q) = angle (snd p) \<and>
                    radius (snd q) = radius (snd p) \<and> active (snd q) = active (snd p) \<and>
                    (fst p \<noteq> k \<longrightarrow> q = p))
     td (AList.map_entry k (\<lambda>c. c\<lparr>pos_x := a, pos_y := b\<rparr>) td)"
  by (induction td) (auto intro: list_all2_refl)

lemma touchMove_body_position:
  "list_all2 (\<lambda>p q. fst q = fst p \<and> color (snd q) = color (snd p) \<and> angle (snd q) = angle (snd p) \<and>
                    radius (snd q) = radius (snd p) \<and> active (snd q) = active (snd p) \<and>
                    (fst p \<noteq> ident t \<longrightarrow> q = p))
     td (touchMove_body t td)"
  unfolding touchMove_body_def using map_entry_position [of "ident t" td]
  by (auto intro: list_all2_refl)

lemma fold_touchMove_position:
  "list_all2 (\<lambda>p q. fst q = fst p \<and> color (snd q) = color (snd p) \<and> angle (snd q) = angle (snd p) \<and>
                    radius (snd q) = radius (snd p) \<and> active (snd q) = active (snd p) \<and>
                    (fst p \<notin> ident ` set ev \<longrightarrow> q = p))
     td (fold touchMove_body ev td)"
proof (induction ev arbitrary: td)
  case Nil
  show ?case by (auto intro: list_all2_refl)
next
  case (Cons t ev)
  have "list_all2 (\<lambda>p q. fst q = fst p \<and> color (snd q) = color (snd p) \<and> angle (snd q) = angle (snd p) \<and>
                    radius (snd q) = radius (snd p) \<and> active (snd q) = active (snd p) \<and>
                    (fst p \<notin> ident ` set (t # ev) \<longrightarrow> q = p))
     td (fold touchMove_body ev (touchMove_body t td))"
    by (rule list_all2_trans [OF _ touchMove_body_position [of t td] Cons.IH [of "touchMove_body t td"]])
       auto
  then show ?case by simp
qed

lemma length_shuffle: "length (shuffle rnd c i a) = length a"
  by (induction i arbitrary: c a) (simp_all add: Let_def)

lemma shuffled_nonempty: "td \<noteq> [] \<Longrightarrow> shuffled e td \<noteq> []"
  using length_shuffle [of "random e" 0 "length (touchArray td) - 1" "touchArray td"]
  by (auto simp: shuffled_def touchArray_def length_object_keys)

lemma team_nan_throws:
  assumes "touchesData s \<noteq> []" and "countValue e = None"
  shows "team_branch e s = (Some TypeError, s\<lparr>teams := []\<rparr>)"
proof -
  obtain m ms where "shuffled e (touchesData s) = m # ms"
    using shuffled_nonempty [OF assms(1), of e] by (cases "shuffled e (touchesData s)") auto
  then show ?thesis
    using assms(2) by (simp add: team_branch_def clampTeamCount_def emptyTeams_def)
qed

lemma lock_nan_throws:
  assumes "touchesData s \<noteq> []" and "mode e = ''team''" and "countValue e = None"
  shows "lockAndShowResult e s = (Some TypeError, s\<lparr>locked := True, showingResult := True, teams := []\<rparr>)"
  using assms by (simp add: lock_cases Let_def team_nan_throws)

lemma stuck_step:
  assumes "locked s" and "timers s = []" and "ev \<noteq> Change"
  shows "locked (step ev s) \<and> timers (step ev s) = []"
  using assms
  by (cases ev)
     (simp_all add: handleTouchStart_def handleTouchMove_def handleTouchEnd_def drawLoop_cases
        fireTimer_def Let_def)

lemma stuck_run:
  "locked s \<Longrightarrow> timers s = [] \<Longrightarrow> locked (run (filter (\<lambda>ev. ev \<noteq> Change) es) s)"
  unfolding run_def
proof (induction es arbitrary: s)
  case Nil
  then show ?case by simp
next
  case (Cons ev es)
  then show ?case using stuck_step [of s ev] by simp
qed

lemma lock_schedules_reset:
  assumes "session_inv s" and "fst (lockAndShowResult e s) = None" and "touchesData s \<noteq> []"
  shows "timers (snd (lockAndShowResult e s)) = [(nextTimer s, now e + 10000)]"
    and "resultTimer (snd (lockAndShowResult e s)) = Some (nextTimer s)"
proof -
  have t: "list_all (\<lambda>p. resultTimer s = Some (fst p)) (timers s)" "resultTimer s \<noteq> Some 0"
    using assms(1) by (simp_all add: session_inv_def)
  let ?s1 = "s\<lparr>locked := True, showingResult := True\<rparr>"
  have c: "timers (scheduleReset (now e) (choose_branch e ?s1)) = [(nextTimer s, now e + 10000)]"
    using t by (subst scheduleReset_timers) (simp_all add: choose_frame)
  have m: "timers (scheduleReset (now e) (snd (team_branch e ?s1))) = [(nextTimer s, now e + 10000)]"
    using t by (subst scheduleReset_timers) (simp_all add: team_frame)
  have o: "timers (scheduleReset (now e) ?s1) = [(nextTimer s, now e + 10000)]"
    using t by (subst scheduleReset_timers) simp_all
  show "timers (snd (lockAndShowResult e s)) = [(nextTimer s, now e + 10000)]"
    using assms(2,3) c m o by (simp add: lock_cases Let_def split: option.splits if_splits)
  show "resultTimer (snd (lockAndShowResult e s)) = Some (nextTimer s)"
    using assms(2,3)
    by (simp add: lock_cases Let_def scheduleReset_frame choose_frame team_frame split: option.splits if_splits)
qed

lemma timer_fires_to_idle:
  assumes "session_inv s" and "timers s = [(h, d)]"
  shows "fireTimer t h s = (if d \<le> t then resetAll (clearTimeout h s) else s)"
    and "d \<le> t \<Longrightarrow> touchesData (fireTimer t h s) = [] \<and> teams (fireTimer t h s) = [] \<and>
           overlayHTML (fireTimer t h s) = [] \<and> \<not> locked (fireTimer t h s) \<and>
           timers (fireTimer t h s) = [] \<and> resultTimer (fireTimer t h s) = None"
proof -
  show eq: "fireTimer t h s = (if d \<le> t then resetAll (clearTimeout h s) else s)"
    using assms(2) by (simp add: fireTimer_def)
  have "resultTimer s = Some h" "h \<noteq> 0"
    using assms by (auto simp: session_inv_def)
  then show "d \<le> t \<Longrightarrow> touchesData (fireTimer t h s) = [] \<and> teams (fireTimer t h s) = [] \<and>
           overlayHTML (fireTimer t h s) = [] \<and> \<not> locked (fireTimer t h s) \<and>
           timers (fireTimer t h s) = [] \<and> resultTimer (fireTimer t h s) = None"
    using assms(2) by (simp add: eq resetAll_def clearTimeout_def Let_def)
qed

lemma locked_example_timer:
  "timers locked_example = [(1, 17000)]" "resultTimer locked_example = Some 1"
proof -
  let ?s2 = "three_down\<lparr>touchesData := map (\<lambda>(i, data). (i, if active data then animate data else data))
                                   (touchesData three_down)\<rparr>"
  have d: "locked_example = snd (lockAndShowResult env_choose ?s2)"
    using three_down_fields three_down_nonempty
    by (simp add: locked_example_def drawLoop_cases Let_def env_choose_def)
  have inv: "session_inv ?s2"
    using reachable_inv [OF reachable_three_down] by (simp add: session_inv_def animate_keys animate_all_active)
  have ne: "touchesData ?s2 \<noteq> []"
    using three_down_nonempty by simp
  have ok: "fst (lockAndShowResult env_choose ?s2) = None"
    using ne by (simp add: lock_cases Let_def env_choose_def)
  have n: "nextTimer ?s2 = 1"
    by (simp add: three_down_def handleTouchStart_def initial_def Let_def)
  show "timers locked_example = [(1, 17000)]"
    using lock_schedules_reset(1) [OF inv ok ne] n by (simp add: d env_choose_def)
  show "resultTimer locked_example = Some 1"
    using lock_schedules_reset(2) [OF inv ok ne] n by (simp add: d)
qed


lemma idle_locked_step:
  assumes "locked s" and "showingResult s" and "touchesData s = []" and "timers s = []"
    and "ev \<noteq> Change"
  shows "step ev s = s"
  using assms
  by (cases ev)
     (simp_all add: handleTouchStart_def handleTouchMove_def handleTouchEnd_def drawLoop_cases
        fireTimer_def Let_def)

lemma idle_locked_run:
  assumes "locked s" and "showingResult s" and "touchesData s = []" and "timers s = []"
  shows "Change \<notin> set es \<Longrightarrow> run es s = s"
  unfolding run_def
proof (induction es)
  case Nil
  show ?case by simp
next
  case (Cons ev es)
  then have "step ev s = s"
    using assms by (intro idle_locked_step) auto
  with Cons show ?case by simp
qed

section \<open>Shuffling and dealing\<close>

lemma shuffle_mset: "i < length a \<Longrightarrow> mset (shuffle rnd c i a) = mset a"
proof (induction i arbitrary: c a)
  case 0
  show ?case by simp
next
  case (Suc i)
  let ?j = "randomIndex (rnd c) (Suc i + 1)"
  have j: "?j < length a"
    using randomIndex_less [of "Suc i + 1" "rnd c"] Suc.prems by simp
  let ?a = "a[Suc i := a ! ?j, ?j := a ! Suc i]"
  have "mset ?a = mset a"
    using mset_swap [OF j Suc.prems] .
  moreover have "mset (shuffle rnd (Suc c) i ?a) = mset ?a"
    using Suc.prems by (intro Suc.IH) simp
  ultimately show ?case
    by (simp add: Let_def)
qed

lemma touchArray_ids: "map m_id (touchArray td) = object_keys td"
  by (simp add: touchArray_def comp_def)

lemma shuffled_mset: "mset (shuffled e td) = mset (touchArray td)"
proof (cases "touchArray td = []")
  case True
  then show ?thesis by (simp add: shuffled_def)
next
  case False
  then show ?thesis
    unfolding shuffled_def by (intro shuffle_mset) simp
qed

lemma shuffled_ids: "mset (map m_id (shuffled e td)) = mset (map fst td)"
proof -
  have "mset (map m_id (shuffled e td)) = image_mset m_id (mset (shuffled e td))"
    by simp
  also have "\<dots> = image_mset m_id (mset (touchArray td))"
    by (simp only: shuffled_mset)
  also have "\<dots> = mset (map m_id (touchArray td))"
    by simp
  also have "\<dots> = mset (map fst td)"
    by (simp only: touchArray_ids mset_object_keys)
  finally show ?thesis .
qed

lemma length_shuffled: "length (shuffled e td) = length td"
  using mset_eq_length [OF shuffled_ids [of e td]] by simp

lemma clampTeamCount_int:
  "1 \<le> n \<Longrightarrow> clampTeamCount (Some k) n = Some (max 1 (min k (int n)))"
  by (auto simp: clampTeamCount_def)

lemma js_rem_nonneg: "0 \<le> a \<Longrightarrow> 0 < b \<Longrightarrow> js_rem a b = a mod b"
  by (cases "a = 0") (simp_all add: js_rem_def)

lemma next_index_nat:
  "0 < K \<Longrightarrow> next_index (int i) (Some (int K)) = Some (int (Suc i mod K))"
  by (simp add: next_index_def js_rem_nonneg zmod_int add.commute)

lemma positions_Cons:
  "map ((!) (x # xs)) (filter P [0 ..< Suc n]) =
     (if P 0 then [x] else []) @ map ((!) xs) (filter (\<lambda>p. P (Suc p)) [0 ..< n])"
proof -
  have "[0 ..< Suc n] = 0 # map Suc [0 ..< n]"
    by (simp add: upt_conv_Cons map_Suc_upt del: upt_Suc)
  then show ?thesis
    by (simp add: filter_map comp_def del: upt_Suc)
qed

lemma distribute_positions:
  assumes "0 < K" and "length tms = K" and "i < K"
  shows "distribute (Some (int K)) tms (Some (int i)) xs =
           (None, map (\<lambda>t. tms ! t @ map ((!) xs) (filter (\<lambda>p. (i + p) mod K = t) [0 ..< length xs]))
                      [0 ..< K])"
  using assms
proof (induction xs arbitrary: tms i)
  case Nil
  have "map ((!) tms) [0 ..< length tms] = tms"
    by (rule map_nth)
  with Nil show ?case
    by simp
next
  case (Cons x xs)
  let ?tms = "tms[i := tms ! i @ [x]]"
  have step: "distribute (Some (int K)) tms (Some (int i)) (x # xs) =
              distribute (Some (int K)) ?tms (Some (int (Suc i mod K))) xs"
    using Cons.prems by (simp add: next_index_nat)
  have ih: "distribute (Some (int K)) ?tms (Some (int (Suc i mod K))) xs =
        (None, map (\<lambda>t. ?tms ! t @ map ((!) xs) (filter (\<lambda>p. (Suc i mod K + p) mod K = t) [0 ..< length xs]))
                   [0 ..< K])"
    using Cons.prems by (intro Cons.IH) simp_all
  have "?tms ! t @ map ((!) xs) (filter (\<lambda>p. (Suc i mod K + p) mod K = t) [0 ..< length xs]) =
        tms ! t @ map ((!) (x # xs)) (filter (\<lambda>p. (i + p) mod K = t) [0 ..< length (x # xs)])"
    if "t < K" for t
  proof -
    have m: "(Suc i mod K + p) mod K = (i + Suc p) mod K" for p
      by (simp add: mod_add_left_eq)
    show ?thesis
      using that Cons.prems by (simp add: positions_Cons m nth_list_update del: upt_Suc)
  qed
  then show ?case
    by (simp only: step ih) (simp del: upt_Suc)
qed

lemma length_team_positions:
  "0 < K \<Longrightarrow> t < K \<Longrightarrow>
   length (team_positions K t n) = n div K + (if t < n mod K then 1 else 0)"
proof (induction n)
  case 0
  then show ?case by (simp add: team_positions_def)
next
  case (Suc n)
  have "length (team_positions K t (Suc n)) =
        length (team_positions K t n) + (if n mod K = t then 1 else 0)"
    by (simp add: team_positions_def)
  also have "\<dots> = n div K + (if t < n mod K then 1 else 0) + (if n mod K = t then 1 else 0)"
    using Suc by simp
  also have "\<dots> = Suc n div K + (if t < Suc n mod K then 1 else 0)"
    using Suc.prems by (auto simp: mod_Suc div_Suc)
  finally show ?case .
qed

lemma team_sizes_balanced:
  "0 < K \<Longrightarrow> t < K \<Longrightarrow> u < K \<Longrightarrow>
   length (team_positions K t n) \<le> length (team_positions K u n) + 1"
  by (simp add: length_team_positions)

lemma sum_team_sizes:
  "0 < K \<Longrightarrow> sum_list (map (\<lambda>t. length (team_positions K t n)) [0 ..< K]) = n"
proof (induction n)
  case 0
  show ?case by (simp add: team_positions_def)
next
  case (Suc n)
  have step: "length (team_positions K t (Suc n)) =
        length (team_positions K t n) + (if n mod K = t then 1 else 0)" for t
    by (simp add: team_positions_def)
  have "sum_list (map (\<lambda>t. length (team_positions K t (Suc n))) [0 ..< K]) =
        (\<Sum>t = 0 ..< K. length (team_positions K t n) + (if n mod K = t then 1 else 0))"
    by (simp only: step interv_sum_list_conv_sum_set_nat set_upt)
  also have "\<dots> = (\<Sum>t = 0 ..< K. length (team_positions K t n)) + (\<Sum>t = 0 ..< K. if n mod K = t then 1 else 0)"
    by (rule sum.distrib)
  also have "(\<Sum>t = 0 ..< K. if n mod K = t then 1 else 0) = (1::nat)"
    using Suc.prems by simp
  also have "(\<Sum>t = 0 ..< K. length (team_positions K t n)) = n"
    using Suc by (simp add: interv_sum_list_conv_sum_set_nat)
  finally show ?case by simp
qed

lemma team_branch_result:
  assumes ne: "touchesData s \<noteq> []" and k: "countValue e = Some k"
  defines "n \<equiv> length (touchesData s)"
  defines "K \<equiv> nat (max 1 (min k (int n)))"
  defines "T \<equiv> map (\<lambda>t. map ((!) (shuffled e (touchesData s))) (team_positions K t n)) [0 ..< K]"
  shows "team_branch e s =
           (None, s\<lparr>teams := T, overlayHTML := resultText T, overlayDisplay := ''block''\<rparr>)"
proof -
  have n: "1 \<le> n"
    using ne by (cases "touchesData s") (simp_all add: n_def)
  have K: "0 < K" "int K = max 1 (min k (int n))"
    by (simp_all add: K_def)
  have c: "clampTeamCount (countValue e) (length (object_keys (touchesData s))) = Some (int K)"
    using n by (simp add: k length_object_keys clampTeamCount_int K n_def [symmetric])
  have d: "distribute (Some (int K)) (replicate K []) (Some (int 0)) (shuffled e (touchesData s)) = (None, T)"
    using K(1) by (subst distribute_positions) (simp_all add: T_def team_positions_def length_shuffled n_def)
  show ?thesis
    using d by (simp add: team_branch_def Let_def c emptyTeams_def)
qed

lemma in_team_iff:
  assumes "distinct (map m_id arr)" and "p < length arr"
  shows "m_id (arr ! p) \<in> m_id ` set (map ((!) arr) (team_positions K t (length arr))) \<longleftrightarrow> p mod K = t"
proof
  assume "m_id (arr ! p) \<in> m_id ` set (map ((!) arr) (team_positions K t (length arr)))"
  then obtain q where q: "q < length arr" "q mod K = t" "m_id (arr ! q) = m_id (arr ! p)"
    by (auto simp: team_positions_def)
  then have "map m_id arr ! q = map m_id arr ! p"
    using assms(2) by simp
  then have "q = p"
    using nth_eq_iff_index_eq [OF assms(1), of q p] q(1) assms(2) by simp
  with q show "p mod K = t" by simp
next
  assume "p mod K = t"
  then have "p \<in> set (team_positions K t (length arr))"
    using assms(2) by (simp add: team_positions_def)
  then show "m_id (arr ! p) \<in> m_id ` set (map ((!) arr) (team_positions K t (length arr)))"
    by auto
qed

lemma exactly_one_team:
  assumes "distinct (map m_id arr)" and "0 < K" and "i \<in> m_id ` set arr"
  shows "\<exists>!t. t < K \<and> i \<in> m_id ` set (map ((!) arr) (team_positions K t (length arr)))"
proof -
  obtain p where p: "p < length arr" "i = m_id (arr ! p)"
    using assms(3) by (auto simp: in_set_conv_nth)
  show ?thesis
  proof (rule ex1I [of _ "p mod K"])
    show "p mod K < K \<and> i \<in> m_id ` set (map ((!) arr) (team_positions K (p mod K) (length arr)))"
      using assms(2) in_team_iff [OF assms(1) p(1), of K "p mod K"] p(2) by simp
  next
    fix t
    assume "t < K \<and> i \<in> m_id ` set (map ((!) arr) (team_positions K t (length arr)))"
    then show "t = p mod K"
      using in_team_iff [OF assms(1) p(1), of K t] p(2) by simp
  qed
qed

lemma lock_team_teams:
  assumes "touchesData s \<noteq> []" and "mode e = ''team''" and "countValue e = Some k"
  shows "fst (lockAndShowResult e s) = None"
    and "teams (snd (lockAndShowResult e s)) =
           map (\<lambda>t. map ((!) (shuffled e (touchesData s)))
                        (team_positions (nat (max 1 (min k (int (length (touchesData s)))))) t
                           (length (touchesData s))))
               [0 ..< nat (max 1 (min k (int (length (touchesData s)))))]"
proof -
  let ?s1 = "s\<lparr>locked := True, showingResult := True\<rparr>"
  have ne: "touchesData ?s1 \<noteq> []"
    using assms(1) by simp
  note tb = team_branch_result [OF ne assms(3)]
  show "fst (lockAndShowResult e s) = None"
    using assms(1,2) by (simp add: lock_cases Let_def tb)
  show "teams (snd (lockAndShowResult e s)) =
           map (\<lambda>t. map ((!) (shuffled e (touchesData s)))
                        (team_positions (nat (max 1 (min k (int (length (touchesData s)))))) t
                           (length (touchesData s))))
               [0 ..< nat (max 1 (min k (int (length (touchesData s)))))]"
    using assms(1,2) by (simp add: lock_cases Let_def tb scheduleReset_frame)
qed

lemma clamped_mod:
  assumes "1 \<le> k" and "p < n"
  shows "p mod nat (max 1 (min k (int n))) = p mod nat k"
proof (cases "k \<le> int n")
  case True
  with assms show ?thesis by (simp add: min_def max_def)
next
  case False
  then have "nat (max 1 (min k (int n))) = n" "n < nat k"
    using assms by auto
  with assms show ?thesis by simp
qed

lemma three_down_length: "length (touchesData three_down) = 3"
  using arg_cong [OF three_down_fields(1), of length] by simp

text \<open>The sample inputs, evaluated.\<close>

lemma color_at_key: "i \<in> set (object_keys td) \<Longrightarrow> map_of td i \<noteq> None"
  by (simp add: set_object_keys map_of_eq_None_iff)

lemma three_down_keys: "object_keys (touchesData three_down) = [0, 1, 2]"
  by (simp add: object_keys_def three_down_fields(1) is_array_index_def)

lemma chosen_example: "chosenKey env_choose (touchesData three_down) = 1"
  by (simp add: chosenKey_def three_down_keys env_choose_def randomIndex_def random_half.rep_eq)

lemma shuffled_example:
  "map m_id (shuffled env_team (touchesData three_down)) = [0, 2, 1]"
  by (simp add: shuffled_def touchArray_def three_down_keys env_team_def randomIndex_def
      random_half.rep_eq eval_nat_numeral Let_def)

lemma teams_example:
  "map (map m_id) (teams (snd (lockAndShowResult env_team three_down))) = [[0, 1], [2]]"
proof -
  have m: "mode env_team = ''team''" and c: "countValue env_team = Some 2"
    by (simp_all add: env_team_def)
  have l: "length (shuffled env_team (touchesData three_down)) = 3"
    by (simp add: length_shuffled three_down_length)
  have p: "team_positions 2 0 3 = [0, 2]" "team_positions 2 (Suc 0) 3 = [Suc 0]"
    by (simp_all add: team_positions_def eval_nat_numeral)
  have n: "map m_id (shuffled env_team (touchesData three_down)) ! 0 = 0"
    "map m_id (shuffled env_team (touchesData three_down)) ! 1 = 2"
    "map m_id (shuffled env_team (touchesData three_down)) ! 2 = 1"
    by (simp_all add: shuffled_example)
  have u: "[0 ..< 2] = [0, Suc 0]"
    by (simp add: eval_nat_numeral)
  show ?thesis
    using n l by (simp add: lock_team_teams(2) [OF three_down_nonempty m c] three_down_length p u)
qed

section \<open>The claims\<close>

text \<open>
  C1, as the code has it. In team mode with an integer count \<open>k\<close>, in a state of a run
  with \<open>n \<ge> 1\<close> contacts, the lock routine returns normally and leaves
  \<open>K = max 1 (min k n)\<close> teams. Their sizes add up to \<open>n\<close> and differ by at most 1. The
  shuffled array is a permutation of the snapshot, and every key of the snapshot is in
  exactly one team. Team \<open>t\<close> holds the contacts at the shuffled positions \<open>p\<close> with
  \<open>p mod K = t\<close>, in that order: the contact at position \<open>p\<close> is in team \<open>p mod K\<close>, the
  clamped count, which is \<open>p mod k\<close> whenever \<open>k \<ge> 1\<close>.
\<close>

theorem teams_partition_round_robin:
  assumes "reachable s" and "touchesData s \<noteq> []" and "mode e = ''team''" and "countValue e = Some k"
  defines "n \<equiv> length (object_keys (touchesData s))"
  defines "K \<equiv> nat (max 1 (min k (int n)))"
  defines "T \<equiv> teams (snd (lockAndShowResult e s))"
  defines "arr \<equiv> shuffled e (touchesData s)"
  shows "fst (lockAndShowResult e s) = None \<and>
         length T = K \<and> int K = max 1 (min k (int n)) \<and>
         sum_list (map length T) = n \<and>
         (\<forall>t<K. \<forall>u<K. length (T ! t) \<le> length (T ! u) + 1) \<and>
         mset (map m_id arr) = mset (object_keys (touchesData s)) \<and>
         distinct (object_keys (touchesData s)) \<and>
         (\<forall>i \<in> set (object_keys (touchesData s)). \<exists>!t. t < K \<and> i \<in> m_id ` set (T ! t)) \<and>
         (\<forall>t<K. T ! t = map ((!) arr) (team_positions K t n)) \<and>
         (\<forall>p<n. arr ! p \<in> set (T ! (p mod K))) \<and>
         (1 \<le> k \<longrightarrow> (\<forall>p<n. p mod K = p mod nat k))"
proof -
  have d: "distinct (map fst (touchesData s))"
    using reachable_inv [OF assms(1)] by (simp add: session_inv_def)
  have n: "n = length (touchesData s)" "length arr = n"
    by (simp_all add: n_def arr_def length_object_keys length_shuffled)
  have K: "0 < K" "int K = max 1 (min k (int n))"
    by (simp_all add: K_def)
  have T: "T = map (\<lambda>t. map ((!) arr) (team_positions K t n)) [0 ..< K]"
    unfolding T_def K_def n arr_def by (rule lock_team_teams(2) [OF assms(2,3,4)])
  have Tt: "T ! t = map ((!) arr) (team_positions K t n)" if "t < K" for t
    using that by (simp add: T)
  have ids: "mset (map m_id arr) = mset (object_keys (touchesData s))"
    by (simp only: arr_def shuffled_ids mset_object_keys)
  have da: "distinct (map m_id arr)"
    using mset_eq_imp_distinct_iff [OF shuffled_ids [of e "touchesData s"]] d by (simp add: arr_def)
  have sizes: "length (T ! t) \<le> length (T ! u) + 1" if "t < K" "u < K" for t u
    using that team_sizes_balanced [OF K(1) that, of n] by (simp add: Tt)
  have total: "sum_list (map length T) = n"
    using sum_team_sizes [OF K(1), of n] by (simp add: T comp_def)
  have one: "\<exists>!t. t < K \<and> i \<in> m_id ` set (T ! t)" if "i \<in> set (object_keys (touchesData s))" for i
  proof -
    have "i \<in> m_id ` set arr"
      using that mset_eq_setD [OF ids] by auto
    from exactly_one_team [OF da K(1) this] show ?thesis
      by (simp add: n(2) Tt cong: conj_cong)
  qed
  have pos: "arr ! p \<in> set (T ! (p mod K))" if "p < n" for p
    using that K(1) by (simp add: Tt team_positions_def)
  have md: "p mod K = p mod nat k" if "1 \<le> k" "p < n" for p
    unfolding K_def using that by (rule clamped_mod)
  show ?thesis
    using lock_team_teams(1) [OF assms(2,3,4)] K total sizes ids distinct_object_keys [OF d] one Tt pos md
    by (simp add: T)
qed

theorem teams_partition_round_robin_witness:
  "reachable three_down \<and> touchesData three_down \<noteq> [] \<and> mode env_team = ''team'' \<and>
   countValue env_team = Some 2 \<and>
   fst (lockAndShowResult env_team three_down) = None \<and>
   length (teams (snd (lockAndShowResult env_team three_down))) = 2 \<and>
   sum_list (map length (teams (snd (lockAndShowResult env_team three_down)))) = 3 \<and>
   map m_id (shuffled env_team (touchesData three_down)) = [0, 2, 1] \<and>
   map (map m_id) (teams (snd (lockAndShowResult env_team three_down))) = [[0, 1], [2]]"
proof -
  have m: "mode env_team = ''team''" and c: "countValue env_team = Some 2"
    by (simp_all add: env_team_def)
  show ?thesis
    using teams_partition_round_robin [OF reachable_three_down three_down_nonempty m c]
      reachable_three_down three_down_nonempty m c shuffled_example teams_example
    by (simp add: length_object_keys three_down_length)
qed

text \<open>
  C1, as stated, fails for a count below 1: with \<open>k = -3\<close> and three contacts there is one
  team, so the contact at shuffled position 1 is in team 0, while \<open>1 mod k\<close> is \<open>-2\<close>
  (or 1 with the remainder of JavaScript), not the index of any team.
\<close>

theorem negative_count_puts_everyone_in_team_zero:
  "countValue env_team_neg = Some (- 3) \<and>
   length (teams (snd (lockAndShowResult env_team_neg three_down))) = 1 \<and>
   length (shuffled env_team_neg (touchesData three_down)) = 3 \<and>
   shuffled env_team_neg (touchesData three_down) ! 1
     \<in> set (teams (snd (lockAndShowResult env_team_neg three_down)) ! 0) \<and>
   (1 :: int) mod (- 3) = - 2 \<and> js_rem 1 (- 3) = 1"
proof -
  have m: "mode env_team_neg = ''team''" and c: "countValue env_team_neg = Some (- 3)"
    by (simp_all add: env_team_neg_def)
  have p: "team_positions (Suc 0) 0 3 = [0, 1, 2]"
    by (simp add: team_positions_def eval_nat_numeral)
  show ?thesis
    using lock_team_teams(2) [OF three_down_nonempty m c]
    by (simp add: c three_down_length length_shuffled p js_rem_def)
qed

text \<open>
  C2. In choose mode, when the lock routine runs in a state of a run that is not locked and
  has contacts: it returns normally and locks; the chosen key is one of the keys of the
  registry; the registry keeps its keys; afterwards a contact is active exactly when its
  key is the chosen one, so exactly one contact is active.
\<close>

theorem choose_keeps_only_the_winner_active:
  assumes "reachable s" and "\<not> locked s" and "touchesData s \<noteq> []" and "mode e = ''choose''"
  shows "fst (lockAndShowResult e s) = None \<and>
         locked (snd (lockAndShowResult e s)) \<and>
         chosenKey e (touchesData s) \<in> set (object_keys (touchesData s)) \<and>
         chosenKey e (touchesData s) \<in> fst ` set (touchesData s) \<and>
         map fst (touchesData (snd (lockAndShowResult e s))) = map fst (touchesData s) \<and>
         (\<forall>p \<in> set (touchesData (snd (lockAndShowResult e s))).
            active (snd p) \<longleftrightarrow> fst p = chosenKey e (touchesData s)) \<and>
         length (filter (\<lambda>p. active (snd p)) (touchesData (snd (lockAndShowResult e s)))) = 1"
proof -
  have inv: "session_inv s"
    using assms(1) by (rule reachable_inv)
  have d: "distinct (map fst (touchesData s))" and a: "list_all (\<lambda>p. active (snd p)) (touchesData s)"
    using inv assms(2) by (simp_all add: session_inv_def)
  have k: "chosenKey e (touchesData s) \<in> set (object_keys (touchesData s))"
    using assms(3) by (rule chosenKey_in_keys)
  then have k': "chosenKey e (touchesData s) \<in> fst ` set (touchesData s)"
    by (simp add: set_object_keys)
  have td: "touchesData (snd (lockAndShowResult e s)) =
        map (\<lambda>p. if fst p \<noteq> chosenKey e (touchesData s) then (fst p, (snd p)\<lparr>active := False\<rparr>) else p)
            (touchesData s)"
    using d by (simp add: lock_choose [OF assms(3,4)] scheduleReset_frame choose_registry)
  show ?thesis
    using choose_result [OF d a k'] k k'
    by (simp add: td lock_locked) (simp add: lock_choose [OF assms(3,4)])
qed

theorem choose_keeps_only_the_winner_active_witness:
  "reachable three_down \<and> \<not> locked three_down \<and> touchesData three_down \<noteq> [] \<and>
   mode env_choose = ''choose'' \<and>
   chosenKey env_choose (touchesData three_down) = 1 \<and>
   chosenKey env_choose (touchesData three_down) \<in> fst ` set (touchesData three_down) \<and>
   length (filter (\<lambda>p. active (snd p)) (touchesData (snd (lockAndShowResult env_choose three_down)))) = 1"
  using choose_keeps_only_the_winner_active [OF reachable_three_down three_down_fields(2) three_down_nonempty, of env_choose]
    reachable_three_down three_down_fields(2) three_down_nonempty chosen_example
  by (simp add: env_choose_def)

text \<open>
  C3. A frame takes an unlocked session to a locked one exactly when the session is not
  showing a result, the registry is not empty and more than 5000 ms have passed since
  \<open>lastTouchTime\<close>. With an empty registry a frame never changes the lock.
\<close>

theorem lock_fires_iff_inactive:
  "(\<not> locked s \<and> locked (snd (drawLoop e s)) \<longleftrightarrow>
      \<not> locked s \<and> \<not> showingResult s \<and> touchesData s \<noteq> [] \<and>
      now e - lastTouchTime s > INACTIVITY_TIMEOUT) \<and>
   INACTIVITY_TIMEOUT = 5000 \<and>
   (touchesData s = [] \<longrightarrow> locked (snd (drawLoop e s)) = locked s)"
  by (auto simp: frame_locked_iff INACTIVITY_TIMEOUT_def)

theorem lock_fires_iff_inactive_witness:
  "\<not> locked three_down \<and> locked (snd (drawLoop env_choose three_down)) \<and>
   touchesData initial = [] \<and> locked (snd (drawLoop env_choose initial)) = locked initial"
  using lock_fires_iff_inactive [of three_down env_choose] lock_fires_iff_inactive [of initial env_choose]
  by (simp add: three_down_fields three_down_nonempty env_choose_def initial_def)

text \<open>
  C4. From a registry of at most ten contacts, no run of events leads to more than ten;
  a \<open>touchstart\<close> that arrives while the registry holds ten contacts leaves the registry
  as it is.
\<close>

theorem registry_never_exceeds_ten:
  "(length (touchesData s) \<le> 10 \<longrightarrow> length (touchesData (run es s)) \<le> 10) \<and>
   (length (object_keys (touchesData s)) = 10 \<longrightarrow>
      touchesData (handleTouchStart t ev s) = touchesData s)"
  by (simp add: run_capacity handleTouchStart_def Let_def fold_touchStart_full length_object_keys)

theorem registry_never_exceeds_ten_witness:
  "length (touchesData initial) \<le> 10 \<and>
   length (touchesData (run [TouchStart 1000 eleven_touches, TouchMove [touch_a], TouchEnd 2000 [touch_b]] initial)) \<le> 10 \<and>
   length (object_keys (touchesData ten_down)) = 10 \<and>
   touchesData (handleTouchStart 3000 [touch_absent] ten_down) = touchesData ten_down"
  using registry_never_exceeds_ten [of initial "[TouchStart 1000 eleven_touches, TouchMove [touch_a], TouchEnd 2000 [touch_b]]"]
    registry_never_exceeds_ten [of ten_down _ 3000 "[touch_absent]"] ten_down_length
  by (simp add: initial_def length_object_keys)

text \<open>
  C5. While the session is locked, the handlers of \<open>touchstart\<close>, \<open>touchmove\<close>,
  \<open>touchend\<close> and \<open>touchcancel\<close> return the state they were given, every field of it.
\<close>

theorem locked_ignores_touch_events:
  "locked s \<Longrightarrow>
     handleTouchStart t ev s = s \<and> handleTouchMove ev s = s \<and> handleTouchEnd t ev s = s \<and>
     step (TouchStart t ev) s = s \<and> step (TouchMove ev) s = s \<and>
     step (TouchEnd t ev) s = s \<and> step (TouchCancel t ev) s = s"
  by (simp add: handleTouchStart_def handleTouchMove_def handleTouchEnd_def)

theorem locked_ignores_touch_events_witness:
  "locked locked_example \<and>
   handleTouchStart 9000 [touch_absent] locked_example = locked_example \<and>
   handleTouchMove [touch_a] locked_example = locked_example \<and>
   handleTouchEnd 9000 [touch_a] locked_example = locked_example \<and>
   step (TouchCancel 9000 [touch_a]) locked_example = locked_example"
  using locked_ignores_touch_events [of locked_example 9000 "[touch_absent]"]
    locked_ignores_touch_events [of locked_example 9000 "[touch_a]"] locked_locked_example
  by simp

text \<open>
  C6. In a session that is not locked, \<open>handleTouchMove\<close> changes nothing but the
  registry, hence not \<open>lastTouchTime\<close>; the registry keeps its keys and their order,
  every contact keeps its colour, angle, radius and active flag, and a contact whose
  identifier is not among the moved touches is unchanged. \<open>handleTouchStart\<close> and
  \<open>handleTouchEnd\<close> (also for \<open>touchcancel\<close>) set \<open>lastTouchTime\<close> to the current time.
\<close>

theorem move_keeps_clock_add_remove_set_it:
  assumes "\<not> locked s"
  shows "lastTouchTime (handleTouchMove ev s) = lastTouchTime s \<and>
         handleTouchMove ev s = s\<lparr>touchesData := touchesData (handleTouchMove ev s)\<rparr> \<and>
         list_all2 (\<lambda>p q. fst q = fst p \<and> color (snd q) = color (snd p) \<and>
                           angle (snd q) = angle (snd p) \<and> radius (snd q) = radius (snd p) \<and>
                           active (snd q) = active (snd p) \<and>
                           (fst p \<notin> ident ` set ev \<longrightarrow> q = p))
           (touchesData s) (touchesData (handleTouchMove ev s)) \<and>
         lastTouchTime (handleTouchStart t ev s) = t \<and>
         lastTouchTime (handleTouchEnd t ev s) = t \<and>
         lastTouchTime (step (TouchCancel t ev) s) = t"
  using assms fold_touchMove_position [of ev "touchesData s"]
  by (simp add: handleTouchMove_def handleTouchStart_def handleTouchEnd_def Let_def)

theorem move_keeps_clock_add_remove_set_it_witness:
  "\<not> locked three_down \<and>
   lastTouchTime (handleTouchMove [touch_a, touch_absent] three_down) = lastTouchTime three_down \<and>
   map fst (touchesData (handleTouchMove [touch_a, touch_absent] three_down)) = [0, 1, 2] \<and>
   lastTouchTime (handleTouchStart 2000 [touch_absent] three_down) = 2000 \<and>
   lastTouchTime (handleTouchEnd 3000 [touch_a] three_down) = 3000"
  using move_keeps_clock_add_remove_set_it [OF three_down_fields(2), of "[touch_a, touch_absent]" 2000]
    move_keeps_clock_add_remove_set_it [OF three_down_fields(2), of "[touch_absent]" 2000]
    move_keeps_clock_add_remove_set_it [OF three_down_fields(2), of "[touch_a]" 3000]
    three_down_fields(1,2)
  by (simp add: handleTouchMove_def touchMove_body_props)

text \<open>
  C7, as the code has it. When the session is not locked and none of the lifted touches is
  in the registry, \<open>handleTouchEnd\<close> leaves the registry and every contact unchanged, but
  it does set \<open>lastTouchTime\<close> to the current time (and clears \<open>showingResult\<close>).
\<close>

theorem remove_absent_keeps_registry_resets_clock:
  "\<not> locked s \<Longrightarrow> \<forall>t \<in> set ev. map_of (touchesData s) (ident t) = None \<Longrightarrow>
   handleTouchEnd t ev s = s\<lparr>showingResult := False, lastTouchTime := t\<rparr>"
  by (simp add: handleTouchEnd_def fold_touchEnd_absent)

theorem remove_absent_keeps_registry_resets_clock_witness:
  "\<not> locked three_down \<and>
   map_of (touchesData three_down) (ident touch_absent) = None \<and>
   handleTouchEnd 2000 [touch_absent] three_down =
     three_down\<lparr>showingResult := False, lastTouchTime := 2000\<rparr>"
proof -
  have absent: "\<forall>t \<in> set [touch_absent]. map_of (touchesData three_down) (ident t) = None"
    using three_down_fields(1) by (simp add: map_of_eq_None_iff touch_absent_def flip: set_map)
  show ?thesis
    using remove_absent_keeps_registry_resets_clock [OF three_down_fields(2) absent, of 2000]
      three_down_fields(2) absent
    by simp
qed

text \<open>
  C7, as stated, fails: lifting the absent touch 7 at time 1000 in the initial state changes
  \<open>lastTouchTime\<close> from 0 to 1000.
\<close>

theorem remove_absent_changes_clock:
  "\<not> locked initial \<and> map_of (touchesData initial) 7 = None \<and>
   lastTouchTime (handleTouchEnd 1000 [\<lparr>ident = 7, clientX = 0, clientY = 0\<rparr>] initial)
     \<noteq> lastTouchTime initial"
  by (simp add: handleTouchEnd_def initial_def touchEnd_body_def)

text \<open>
  C8. The claim fails on the code for one input: in team mode with a count field that
  does not parse to a number, the frame that locks the session throws a \<open>TypeError\<close>
  out of \<open>lockAndShowResult\<close> before the timeout is started. The session is locked, no
  timeout is pending, and no run without an external reset unlocks it. (When the routine
  returns normally the timeout is there and fires into \<open>resetAll\<close>: lemmas
  \<open>lock_schedules_reset\<close> and \<open>timer_fires_to_idle\<close>.)
\<close>

theorem nan_team_count_locks_without_timer:
  "drawLoop env_team_nan three_down =
     (Some TypeError, snd (drawLoop env_team_nan three_down)) \<and>
   locked (snd (drawLoop env_team_nan three_down)) \<and>
   touchesData (snd (drawLoop env_team_nan three_down)) \<noteq> [] \<and>
   timers (snd (drawLoop env_team_nan three_down)) = [] \<and>
   resultTimer (snd (drawLoop env_team_nan three_down)) = None \<and>
   (\<forall>es. locked (run (filter (\<lambda>ev. ev \<noteq> Change) es) (snd (drawLoop env_team_nan three_down))))"
proof -
  let ?s2 = "three_down\<lparr>touchesData := map (\<lambda>(i, data). (i, if active data then animate data else data))
                                   (touchesData three_down)\<rparr>"
  have inv: "session_inv three_down"
    using reachable_three_down by (rule reachable_inv)
  have ne: "touchesData ?s2 \<noteq> []"
    using three_down_nonempty by simp
  have d: "drawLoop env_team_nan three_down = lockAndShowResult env_team_nan ?s2"
    using three_down_fields three_down_nonempty
    by (simp add: drawLoop_cases Let_def env_team_nan_def)
  have l: "lockAndShowResult env_team_nan ?s2 =
             (Some TypeError, ?s2\<lparr>locked := True, showingResult := True, teams := []\<rparr>)"
    by (rule lock_nan_throws [OF ne]) (simp_all add: env_team_nan_def)
  have t: "timers three_down = []" "resultTimer three_down = None"
    using inv three_down_fields(2) by (simp_all add: session_inv_def)
  show ?thesis
    using ne t stuck_run [of "?s2\<lparr>locked := True, showingResult := True, teams := []\<rparr>"]
    by (simp add: d l)
qed

text \<open>
  C9. Resetting twice gives the state that resetting once gives: the registry and the teams
  are empty, the overlay text is empty and hidden, the session is neither locked nor
  showing a result, \<open>lastTouchTime\<close> is 0; in every state of a run, \<open>resultTimer\<close> is
  \<open>null\<close> and no timeout is pending after the reset.
\<close>

theorem reset_is_idempotent:
  "resetAll (resetAll s) = resetAll s \<and>
   touchesData (resetAll s) = [] \<and> teams (resetAll s) = [] \<and> overlayHTML (resetAll s) = [] \<and>
   overlayDisplay (resetAll s) = ''none'' \<and> \<not> locked (resetAll s) \<and>
   \<not> showingResult (resetAll s) \<and> lastTouchTime (resetAll s) = 0 \<and>
   (reachable s \<longrightarrow> resultTimer (resetAll s) = None \<and> timers (resetAll s) = [])"
proof -
  have "resultTimer (resetAll s) = None \<and> timers (resetAll s) = []" if "reachable s"
  proof -
    have "session_inv (step Change s)"
      using that by (intro inv_step reachable_inv)
    then show ?thesis
      by (simp add: session_inv_def resetAll_fields)
  qed
  then show ?thesis
    by (simp add: resetAll_idem resetAll_fields)
qed

theorem reset_is_idempotent_witness:
  "reachable locked_example \<and> timers locked_example = [(1, 17000)] \<and>
   resetAll (resetAll locked_example) = resetAll locked_example \<and>
   touchesData (resetAll locked_example) = [] \<and>
   resultTimer (resetAll locked_example) = None \<and> timers (resetAll locked_example) = []"
  using reset_is_idempotent [of locked_example] reachable_locked_example locked_example_timer
  by simp

text \<open>
  C10. In a state of a run whose registry is empty, the lock routine sets \<open>locked\<close> and
  \<open>showingResult\<close> and returns at once: nothing else changes, no timeout is pending and
  \<open>resultTimer\<close> is \<open>null\<close>. From the state it leaves, every run without a change
  of the mode or of the count field ends in the same state; such a change unlocks it.
\<close>

theorem lock_with_empty_registry_stays_locked:
  assumes "reachable s" and "touchesData s = []"
  shows "lockAndShowResult e s = (None, s\<lparr>locked := True, showingResult := True\<rparr>) \<and>
         timers s = [] \<and> resultTimer s = None \<and>
         (\<forall>es. Change \<notin> set es \<longrightarrow>
            run es (s\<lparr>locked := True, showingResult := True\<rparr>) =
              s\<lparr>locked := True, showingResult := True\<rparr>) \<and>
         \<not> locked (step Change (s\<lparr>locked := True, showingResult := True\<rparr>))"
proof -
  have inv: "session_inv s"
    using assms(1) by (rule reachable_inv)
  then have t: "timers s = []" "resultTimer s = None"
    using assms(2) by (auto simp: session_inv_def)
  have "run es (s\<lparr>locked := True, showingResult := True\<rparr>) = s\<lparr>locked := True, showingResult := True\<rparr>"
    if "Change \<notin> set es" for es
    using that t assms(2) by (intro idle_locked_run) simp_all
  then show ?thesis
    using t assms(2) by (simp add: lock_cases Let_def resetAll_fields)
qed

theorem lock_with_empty_registry_stays_locked_witness:
  "reachable initial \<and> touchesData initial = [] \<and>
   lockAndShowResult env_choose initial = (None, initial\<lparr>locked := True, showingResult := True\<rparr>) \<and>
   run [TouchStart 1000 [touch_a], Frame env_choose, Timeout 20000 1, TouchEnd 30000 [touch_a]]
       (initial\<lparr>locked := True, showingResult := True\<rparr>) =
     initial\<lparr>locked := True, showingResult := True\<rparr>"
proof -
  have e: "touchesData initial = []"
    by (simp add: initial_def)
  show ?thesis
    using lock_with_empty_registry_stays_locked [OF reachable_initial e, of env_choose]
      reachable_initial e
    by simp
qed

end
